theory Spec2Isabelle
  imports Main "HOL-Library.Word"
begin

section \<open>Values and exceptions\<close>

text \<open>
  A Python \<open>bytes\<close> object is a list of 8-bit words; a \<open>str\<close> is the list of its code
  points. The entry points test their arguments with \<open>isinstance\<close>, so an argument is a
  value of either kind.
\<close>

type_synonym byte = "8 word"

datatype pyval = Bytes "byte list" | Str "nat list"

text \<open>
  The exceptions the module can raise. Three places raise \<open>ValueError\<close>: the check of the
  character set's length (\<open>charset base must be 58, not n\<close>), \<open>bytes.index\<close> on a byte that
  is absent (\<open>subsection not found\<close>) and \<open>bytes.fromhex\<close> on a malformed string; the
  argument of \<open>ValueError\<close> tells them apart.
\<close>

datatype reason = CharsetBase nat | SubsectionNotFound | NonHexadecimal

datatype error = TypeError | IndexError | ValueError reason | UnicodeEncodeError | IncorrectAddress

section \<open>Built-in operations of Python used by the module\<close>

text \<open>\<open>str.encode('ascii')\<close>: every code point must be below 128.\<close>

fun encode_ascii :: "nat list \<Rightarrow> error + byte list" where
  "encode_ascii [] = Inr []"
| "encode_ascii (c # cs) =
     (if c < 128
      then (case encode_ascii cs of Inl e \<Rightarrow> Inl e | Inr bs \<Rightarrow> Inr (of_nat c # bs))
      else Inl UnicodeEncodeError)"

text \<open>\<open>str.encode()\<close>: UTF-8, which refuses the surrogates U+D800 .. U+DFFF.\<close>

definition utf8_char :: "nat \<Rightarrow> error + byte list" where
  "utf8_char c =
     (if c < 128 then Inr [of_nat c]
      else if c < 2048 then Inr [of_nat (192 + c div 64), of_nat (128 + c mod 64)]
      else if 55296 \<le> c \<and> c < 57344 then Inl UnicodeEncodeError
      else if c < 65536 then
        Inr [of_nat (224 + c div 4096), of_nat (128 + c div 64 mod 64), of_nat (128 + c mod 64)]
      else
        Inr [of_nat (240 + c div 262144), of_nat (128 + c div 4096 mod 64),
             of_nat (128 + c div 64 mod 64), of_nat (128 + c mod 64)])"

fun encode_utf8 :: "nat list \<Rightarrow> error + byte list" where
  "encode_utf8 [] = Inr []"
| "encode_utf8 (c # cs) =
     (case utf8_char c of
        Inl e \<Rightarrow> Inl e
      | Inr b \<Rightarrow> (case encode_utf8 cs of Inl e \<Rightarrow> Inl e | Inr bs \<Rightarrow> Inr (b @ bs)))"

text \<open>\<open>bytes.index(char)\<close>: the position of the first occurrence, if there is one.\<close>

fun index_bytes :: "byte list \<Rightarrow> byte \<Rightarrow> nat option" where
  "index_bytes [] c = None"
| "index_bytes (x # xs) c =
     (if x = c then Some 0 else map_option Suc (index_bytes xs c))"

text \<open>\<open>hex(n)\<close> for an integer: lower-case digits after \<open>0x\<close>, or after \<open>-0x\<close> below zero.\<close>

definition hex_digit :: "nat \<Rightarrow> char" where
  "hex_digit d = ''0123456789abcdef'' ! d"

fun hex_digits :: "nat \<Rightarrow> string" where
  "hex_digits n = (if n < 16 then [hex_digit n] else hex_digits (n div 16) @ [hex_digit (n mod 16)])"

declare hex_digits.simps [simp del]

definition py_hex :: "int \<Rightarrow> string" where
  "py_hex i = (if i < 0 then ''-0x'' @ hex_digits (nat (- i)) else ''0x'' @ hex_digits (nat i))"

definition removeprefix :: "string \<Rightarrow> string \<Rightarrow> string" where
  "removeprefix s p = (if take (length p) s = p then drop (length p) s else s)"

text \<open>
  \<open>bytes.fromhex\<close>: two hexadecimal digits per byte. It would skip white space between
  the pairs; \<open>hex\<close> produces none.
\<close>

definition hex_value :: "char \<Rightarrow> nat option" where
  "hex_value c =
     (let k = (of_char c :: nat) in
      if 48 \<le> k \<and> k \<le> 57 then Some (k - 48)
      else if 97 \<le> k \<and> k \<le> 102 then Some (k - 87)
      else if 65 \<le> k \<and> k \<le> 70 then Some (k - 55)
      else None)"

fun fromhex :: "string \<Rightarrow> error + byte list" where
  "fromhex [] = Inr []"
| "fromhex [c] = Inl (ValueError NonHexadecimal)"
| "fromhex (c # d # s) =
     (case (hex_value c, hex_value d) of
        (Some h, Some l) \<Rightarrow>
          (case fromhex s of Inl e \<Rightarrow> Inl e | Inr bs \<Rightarrow> Inr (of_nat (16 * h + l) # bs))
      | _ \<Rightarrow> Inl (ValueError NonHexadecimal))"

section \<open>The Base58 codec\<close>

definition DEFAULT_CHARSET :: "byte list" where
  "DEFAULT_CHARSET =
     map (\<lambda>c. of_nat (of_char c)) ''123456789ABCDEFGHJKLMNPQRSTUVWXYZabcdefghijkmnopqrstuvwxyz''"

text \<open>
  The accumulators of both directions are sums of products of byte values and digit
  positions, never negative: they are natural numbers.

  The loop of \<open>_b58encode_int\<close>. The helper is a closure over \<open>charset\<close> and \<open>base\<close> and
  runs only after \<open>base\<close> has been checked to be 58; the test \<open>base < 2\<close> stands for the
  bases at which \<open>divmod\<close> would raise or the loop would not end, which that check excludes.
  The slice \<open>charset[idx:idx+1]\<close> is \<open>take 1 (drop idx charset)\<close>.
\<close>

function b58encode_loop :: "byte list \<Rightarrow> nat \<Rightarrow> nat \<Rightarrow> byte list \<Rightarrow> byte list" where
  "b58encode_loop charset base int' output =
     (if int' = 0 \<or> base < 2 then output
      else b58encode_loop charset base (int' div base)
             (take 1 (drop (int' mod base) charset) @ output))"
  by pat_completeness auto
termination
  by (relation "measure (\<lambda>(charset, base, int', output). int')") auto

declare b58encode_loop.simps [simp del]

text \<open>
  \<open>_b58encode_int(int_, default)\<close> (\<open>int'\<close> and \<open>dflt\<close> here): \<open>default\<close> is a bytes object or \<open>False\<close> (here
  \<open>None\<close>); it is returned for 0 when it is truthy, that is, a non-empty bytes object.
\<close>

definition b58encode_int :: "byte list \<Rightarrow> nat \<Rightarrow> nat \<Rightarrow> byte list option \<Rightarrow> byte list" where
  "b58encode_int charset base int' dflt =
     (case dflt of
        Some d \<Rightarrow> (if int' = 0 \<and> d \<noteq> [] then d else b58encode_loop charset base int' [])
      | None \<Rightarrow> b58encode_loop charset base int' [])"

text \<open>
  The default value of the helper's parameter, \<open>bytes([charset[0]])\<close>, is evaluated when
  the \<open>def\<close> statement runs: at every call of \<open>b58encode\<close>, before any check.
\<close>

definition default_arg :: "pyval \<Rightarrow> error + byte list" where
  "default_arg charset =
     (case charset of
        Bytes [] \<Rightarrow> Inl IndexError
      | Bytes (c # _) \<Rightarrow> Inr [c]
      | Str [] \<Rightarrow> Inl IndexError
      | Str (c # _) \<Rightarrow> Inl TypeError)"

text \<open>The loop \<open>for char in deque(reversed(val)): acc += p * char; p = p << 8\<close>.\<close>

definition acc_step :: "byte \<Rightarrow> nat \<times> nat \<Rightarrow> nat \<times> nat" where
  "acc_step char = (\<lambda>(p, acc). (push_bit 8 p, acc + p * unat char))"

definition b58encode :: "pyval \<Rightarrow> pyval \<Rightarrow> error + byte list" where
  "b58encode val charset =
     (case default_arg charset of
        Inl e \<Rightarrow> Inl e
      | Inr dflt \<Rightarrow>
        (case val of
           Str _ \<Rightarrow> Inl TypeError
         | Bytes v \<Rightarrow>
           (case (case charset of Str s \<Rightarrow> encode_ascii s | Bytes c \<Rightarrow> Inr c) of
              Inl e \<Rightarrow> Inl e
            | Inr cs \<Rightarrow>
              (let base = length cs in
               if base \<noteq> 58 then Inl (ValueError (CharsetBase base))
               else
                 (let stripped = dropWhile (\<lambda>b. b = 0) v;
                      pad_len = length v - length stripped;
                      (p, acc) = fold acc_step (rev stripped) (1, 0);
                      result = b58encode_int cs base acc None;
                      prefix = replicate pad_len (cs ! 0)
                  in Inr (prefix @ result))))))"

text \<open>\<open>_b58decode_int\<close>: \<open>output = output * base + charset.index(char)\<close> for each byte.\<close>

fun b58decode_int :: "byte list \<Rightarrow> nat \<Rightarrow> byte list \<Rightarrow> nat \<Rightarrow> error + nat" where
  "b58decode_int charset base [] output = Inr output"
| "b58decode_int charset base (char # val) output =
     (case index_bytes charset char of
        None \<Rightarrow> Inl (ValueError SubsectionNotFound)
      | Some i \<Rightarrow> b58decode_int charset base val (output * base + i))"

text \<open>The loop \<open>while acc > 0: acc, mod = divmod(acc, 256); result.appendleft(mod)\<close>.\<close>

function b58decode_loop :: "nat \<Rightarrow> byte list \<Rightarrow> byte list" where
  "b58decode_loop acc result =
     (if acc > 0 then b58decode_loop (acc div 256) (of_nat (acc mod 256) # result)
      else result)"
  by pat_completeness auto
termination
  by (relation "measure (\<lambda>(acc, result). acc)") auto

declare b58decode_loop.simps [simp del]

definition b58decode :: "pyval \<Rightarrow> pyval \<Rightarrow> error + byte list" where
  "b58decode val charset =
     (case (case val of Str s \<Rightarrow> encode_utf8 s | Bytes v \<Rightarrow> Inr v) of
        Inl e \<Rightarrow> Inl e
      | Inr v \<Rightarrow>
        (case (case charset of Str s \<Rightarrow> encode_utf8 s | Bytes c \<Rightarrow> Inr c) of
           Inl e \<Rightarrow> Inl e
         | Inr cs \<Rightarrow>
           (let base = length cs in
            if base \<noteq> 58 then Inl (ValueError (CharsetBase base))
            else
              (let stripped = dropWhile (\<lambda>b. b = cs ! 0) v;
                   pad_len = length v - length stripped
               in case b58decode_int cs base stripped 0 of
                    Inl e \<Rightarrow> Inl e
                  | Inr acc \<Rightarrow> Inr (replicate pad_len 0 @ b58decode_loop acc [])))))"

section \<open>The Base58Check protocol\<close>

text \<open>
  \<open>hashlib.sha256\<close> is not part of the module: \<open>sha256 m\<close> stands for
  \<open>sha256(m).digest()\<close> and is a parameter of the three functions that hash. The
  theorems ask of it only that a digest has 32 bytes.

  The first four lines of \<open>b58check_encode\<close> render the version.
\<close>

definition version_bytes :: "int \<Rightarrow> error + byte list" where
  "version_bytes address_version =
     (let v_addr = removeprefix (py_hex address_version) ''0x'';
          v_addr = (if length v_addr = 1 then ''0'' @ v_addr else v_addr)
      in fromhex v_addr)"

definition b58check_encode ::
  "(byte list \<Rightarrow> byte list) \<Rightarrow> pyval \<Rightarrow> int \<Rightarrow> pyval \<Rightarrow> error + byte list" where
  "b58check_encode sha256 val address_version charset =
     (case version_bytes address_version of
        Inl e \<Rightarrow> Inl e
      | Inr v_addr \<Rightarrow>
        (case val of
           Str _ \<Rightarrow> Inl TypeError
         | Bytes v \<Rightarrow>
           (let chk_sum = take 4 (sha256 (sha256 (v_addr @ v)))
            in b58encode (Bytes (v_addr @ v @ chk_sum)) charset)))"

text \<open>
  The slices: \<open>b[-4:]\<close> is \<open>drop (length b - 4) b\<close>, \<open>b[:-4]\<close> is
  \<open>take (length b - 4) b\<close> and \<open>b[1:-4]\<close> is \<open>drop 1 (take (length b - 4) b)\<close>, also
  when \<open>b\<close> has fewer than four bytes.
\<close>

definition b58check_address_is_valid ::
  "(byte list \<Rightarrow> byte list) \<Rightarrow> pyval \<Rightarrow> pyval \<Rightarrow> error + bool" where
  "b58check_address_is_valid sha256 val charset =
     (case b58decode val charset of
        Inl e \<Rightarrow> Inl e
      | Inr b58check_address_bytes \<Rightarrow>
        (let expected_chk_sum =
               drop (length b58check_address_bytes - 4) b58check_address_bytes;
             actual_chk_sum =
               take 4 (sha256 (sha256
                 (take (length b58check_address_bytes - 4) b58check_address_bytes)))
         in if expected_chk_sum \<noteq> actual_chk_sum then Inr False else Inr True))"

definition b58check_decode ::
  "(byte list \<Rightarrow> byte list) \<Rightarrow> pyval \<Rightarrow> pyval \<Rightarrow> error + byte list" where
  "b58check_decode sha256 val charset =
     (case b58check_address_is_valid sha256 val charset of
        Inl e \<Rightarrow> Inl e
      | Inr ok \<Rightarrow>
        if \<not> ok then Inl IncorrectAddress
        else (case b58decode val charset of
                Inl e \<Rightarrow> Inl e
              | Inr raw \<Rightarrow> Inr (drop 1 (take (length raw - 4) raw))))"

section \<open>Positional notation\<close>

text \<open>
  Two functions used to state what the loops compute: the digits of a number in a base,
  most significant first, and the number a list of digits denotes.
\<close>

function digits :: "nat \<Rightarrow> nat \<Rightarrow> nat list" where
  "digits b n = (if n = 0 \<or> b < 2 then [] else digits b (n div b) @ [n mod b])"
  by pat_completeness auto
termination
  by (relation "measure (\<lambda>(b, n). n)") auto

declare digits.simps [simp del]

definition from_digits :: "nat \<Rightarrow> nat list \<Rightarrow> nat" where
  "from_digits b ds = foldl (\<lambda>a d. a * b + d) 0 ds"

section \<open>Digits and the loops of the codec\<close>

lemma from_digits_Nil [simp]: "from_digits b [] = 0"
  by (simp add: from_digits_def)

lemma from_digits_snoc [simp]: "from_digits b (ds @ [d]) = from_digits b ds * b + d"
  by (simp add: from_digits_def)

lemma foldl_horner:
  "foldl (\<lambda>a d. a * b + d) a ds = a * b ^ length ds + from_digits b ds"
proof (induction ds arbitrary: a rule: rev_induct)
  case Nil
  show ?case by simp
next
  case (snoc d ds)
  have "foldl (\<lambda>a d. a * b + d) a (ds @ [d]) = (a * b ^ length ds + from_digits b ds) * b + d"
    by (simp add: snoc.IH)
  then show ?case by (simp add: algebra_simps)
qed

lemma from_digits_Cons: "from_digits b (d # ds) = d * b ^ length ds + from_digits b ds"
proof -
  have "from_digits b (d # ds) = foldl (\<lambda>a d. a * b + d) d ds"
    by (simp add: from_digits_def)
  then show ?thesis by (simp add: foldl_horner)
qed

lemma digits_0 [simp]: "digits b 0 = []"
  by (simp add: digits.simps)

lemma digits_step: "2 \<le> b \<Longrightarrow> 0 < n \<Longrightarrow> digits b n = digits b (n div b) @ [n mod b]"
  by (subst digits.simps) simp

lemma from_digits_digits: "2 \<le> b \<Longrightarrow> from_digits b (digits b n) = n"
proof (induction b n rule: digits.induct)
  case (1 b n)
  show ?case
  proof (cases "n = 0")
    case True
    then show ?thesis by simp
  next
    case False
    with 1 show ?thesis by (simp add: digits_step)
  qed
qed

lemma digits_less: "2 \<le> b \<Longrightarrow> d \<in> set (digits b n) \<Longrightarrow> d < b"
proof (induction b n rule: digits.induct)
  case (1 b n)
  show ?case
  proof (cases "n = 0")
    case True
    with 1 show ?thesis by simp
  next
    case False
    with 1 show ?thesis by (auto simp: digits_step)
  qed
qed

lemma digits_eq_Nil: "2 \<le> b \<Longrightarrow> digits b n = [] \<longleftrightarrow> n = 0"
  by (cases "n = 0") (simp_all add: digits_step)

lemma digits_hd: "2 \<le> b \<Longrightarrow> 0 < n \<Longrightarrow> hd (digits b n) \<noteq> 0"
proof (induction b n rule: digits.induct)
  case (1 b n)
  show ?case
  proof (cases "n div b = 0")
    case True
    with 1 have "n < b" by (simp add: div_eq_0_iff)
    with 1 True show ?thesis by (simp add: digits_step)
  next
    case False
    with 1 have "hd (digits b (n div b)) \<noteq> 0" by simp
    moreover from False 1 have "digits b (n div b) \<noteq> []" by (simp add: digits_eq_Nil)
    ultimately show ?thesis using 1 by (simp add: digits_step)
  qed
qed

lemma from_digits_pos: "0 < b \<Longrightarrow> ds \<noteq> [] \<Longrightarrow> hd ds \<noteq> 0 \<Longrightarrow> 0 < from_digits b ds"
  by (cases ds) (simp_all add: from_digits_Cons)

lemma digits_from_digits:
  "2 \<le> b \<Longrightarrow> \<forall>d\<in>set ds. d < b \<Longrightarrow> ds = [] \<or> hd ds \<noteq> 0 \<Longrightarrow> digits b (from_digits b ds) = ds"
proof (induction ds rule: rev_induct)
  case Nil
  show ?case by simp
next
  case (snoc d ds)
  from snoc.prems have d: "d < b" by simp
  show ?case
  proof (cases "ds = []")
    case True
    with snoc.prems have "0 < d" by simp
    with d True snoc.prems(1) show ?thesis by (simp add: digits_step from_digits_def)
  next
    case False
    with snoc.prems have hd: "hd ds \<noteq> 0" by simp
    with False snoc.prems have pos: "0 < from_digits b ds" by (simp add: from_digits_pos)
    from snoc False hd have IH: "digits b (from_digits b ds) = ds" by simp
    have "0 < from_digits b ds * b + d" using pos snoc.prems(1) by simp
    then show ?thesis using snoc.prems(1) d IH by (simp add: digits_step)
  qed
qed

lemma b58encode_loop_digits:
  "2 \<le> base \<Longrightarrow> length charset = base \<Longrightarrow>
   b58encode_loop charset base n out = map (\<lambda>d. charset ! d) (digits base n) @ out"
proof (induction charset base n out rule: b58encode_loop.induct)
  case (1 charset base n out)
  show ?case
  proof (cases "n = 0")
    case True
    then show ?thesis by (simp add: b58encode_loop.simps)
  next
    case False
    have lt: "n mod base < length charset" using 1(2,3) by simp
    have slice: "take 1 (drop (n mod base) charset) = [charset ! (n mod base)]"
      using lt by (simp add: Cons_nth_drop_Suc [symmetric])
    have "b58encode_loop charset base n out =
          b58encode_loop charset base (n div base) (take 1 (drop (n mod base) charset) @ out)"
      using False 1(2) by (subst b58encode_loop.simps) simp
    also have "\<dots> = map (\<lambda>d. charset ! d) (digits base (n div base)) @ [charset ! (n mod base)] @ out"
      using 1 False slice by simp
    finally show ?thesis using False 1(2) by (simp add: digits_step)
  qed
qed

lemma b58decode_loop_digits:
  "b58decode_loop n result = map of_nat (digits 256 n) @ result"
proof (induction n result rule: b58decode_loop.induct)
  case (1 acc result)
  show ?case
  proof (cases "acc = 0")
    case True
    then show ?thesis by (simp add: b58decode_loop.simps)
  next
    case False
    have "b58decode_loop acc result = b58decode_loop (acc div 256) (of_nat (acc mod 256) # result)"
      using False by (subst b58decode_loop.simps) simp
    with 1 False show ?thesis by (simp add: digits_step)
  qed
qed

lemma fold_acc_step:
  "fold acc_step (rev v) (1, 0) = (256 ^ length v, from_digits 256 (map unat v))"
proof (induction v)
  case Nil
  show ?case by simp
next
  case (Cons x v)
  then show ?case
    by (simp add: acc_step_def push_bit_eq_mult from_digits_Cons)
qed

lemma index_bytes_None: "index_bytes cs c = None \<longleftrightarrow> c \<notin> set cs"
  by (induction cs) auto

lemma index_bytes_Some: "index_bytes cs c = Some i \<Longrightarrow> i < length cs \<and> cs ! i = c"
  by (induction cs arbitrary: i) (auto split: if_splits)

lemma index_bytes_nth: "distinct cs \<Longrightarrow> d < length cs \<Longrightarrow> index_bytes cs (cs ! d) = Some d"
proof (induction cs arbitrary: d)
  case Nil
  then show ?case by simp
next
  case (Cons x cs)
  show ?case
  proof (cases d)
    case 0
    then show ?thesis by simp
  next
    case (Suc k)
    with Cons.prems have "k < length cs" "cs ! k \<in> set cs" by simp_all
    with Cons Suc show ?thesis by auto
  qed
qed

lemma b58decode_int_nth:
  "distinct cs \<Longrightarrow> \<forall>d\<in>set ds. d < length cs \<Longrightarrow>
   b58decode_int cs base (map (\<lambda>d. cs ! d) ds) a = Inr (foldl (\<lambda>a d. a * base + d) a ds)"
  by (induction ds arbitrary: a) (simp_all add: index_bytes_nth)

lemma b58decode_int_invalid:
  "\<exists>c\<in>set val. c \<notin> set cs \<Longrightarrow> b58decode_int cs base val a = Inl (ValueError SubsectionNotFound)"
proof (induction val arbitrary: a)
  case Nil
  then show ?case by simp
next
  case (Cons c val)
  show ?case
  proof (cases "index_bytes cs c")
    case None
    then show ?thesis by simp
  next
    case (Some i)
    then have "c \<in> set cs" using index_bytes_None [of cs c] by auto
    with Cons Some show ?thesis by auto
  qed
qed

lemma dropWhile_replicate_append:
  "P a \<Longrightarrow> ys = [] \<or> \<not> P (hd ys) \<Longrightarrow> dropWhile P (replicate z a @ ys) = ys"
  by (induction z) (auto simp: dropWhile_eq_self_iff)

lemma replicate_dropWhile:
  "replicate (length xs - length (dropWhile (\<lambda>b. b = a) xs)) a @ dropWhile (\<lambda>b. b = a) xs = xs"
proof (induction xs)
  case Nil
  show ?case by simp
next
  case (Cons x xs)
  have "length (dropWhile (\<lambda>b. b = a) xs) \<le> length xs" by (rule length_dropWhile_le)
  with Cons show ?case by (auto simp: Suc_diff_le)
qed

lemma hd_dropWhile_neq: "dropWhile (\<lambda>b. b = a) xs = [] \<or> hd (dropWhile (\<lambda>b. b = a) xs) \<noteq> a"
  using hd_dropWhile [of "\<lambda>b. b = a" xs] by auto

lemma unat_byte_less: "unat (b :: byte) < 256"
  using unsigned_less [of b, where 'a = nat] by simp

lemma unat_of_nat_byte: "d < 256 \<Longrightarrow> unat (of_nat d :: byte) = d"
  by (simp add: unat_of_nat)

lemma map_of_nat_unat: "map of_nat (map unat (r :: byte list)) = r"
  by (induction r) simp_all

lemma map_unat_of_nat: "\<forall>d\<in>set ds. d < 256 \<Longrightarrow> map unat (map of_nat ds :: byte list) = ds"
  by (induction ds) (simp_all add: unat_of_nat_byte)

lemma default_arg_Bytes: "cs \<noteq> [] \<Longrightarrow> default_arg (Bytes cs) = Inr [hd cs]"
  by (cases cs) (simp_all add: default_arg_def)

lemma b58encode_Bytes:
  assumes "length cs = 58"
  shows "b58encode (Bytes x) (Bytes cs) =
     Inr (replicate (length x - length (dropWhile (\<lambda>b. b = 0) x)) (cs ! 0) @
          map (\<lambda>d. cs ! d) (digits 58 (from_digits 256 (map unat (dropWhile (\<lambda>b. b = 0) x)))))"
proof -
  from assms have "cs \<noteq> []" by auto
  then have d: "default_arg (Bytes cs) = Inr [hd cs]" by (rule default_arg_Bytes)
  show ?thesis
    unfolding b58encode_def
    by (simp add: d assms fold_acc_step [simplified] b58encode_int_def b58encode_loop_digits Let_def)
qed

lemma b58decode_Bytes:
  assumes "length cs = 58"
  shows "b58decode (Bytes e) (Bytes cs) =
     (case b58decode_int cs 58 (dropWhile (\<lambda>b. b = cs ! 0) e) 0 of
        Inl err \<Rightarrow> Inl err
      | Inr acc \<Rightarrow>
          Inr (replicate (length e - length (dropWhile (\<lambda>b. b = cs ! 0) e)) 0 @
               map of_nat (digits 256 acc)))"
  unfolding b58decode_def
  by (simp add: assms b58decode_loop_digits split: sum.splits)

lemma b58decode_digits:
  assumes len: "length cs = 58" and dist: "distinct cs"
    and lt: "\<forall>d\<in>set ds. d < 58" and hd: "ds = [] \<or> hd ds \<noteq> 0"
  shows "b58decode (Bytes (replicate z (cs ! 0) @ map (\<lambda>d. cs ! d) ds)) (Bytes cs) =
         Inr (replicate z 0 @ map of_nat (digits 256 (from_digits 58 ds)))"
proof -
  let ?m = "map (\<lambda>d. cs ! d) ds"
  have "?m = [] \<or> hd ?m \<noteq> cs ! 0"
  proof (cases ds)
    case Nil
    then show ?thesis by simp
  next
    case (Cons d ds')
    with hd lt have "d \<noteq> 0" "d < 58" by simp_all
    with len dist have "cs ! d \<noteq> cs ! 0" by (simp add: nth_eq_iff_index_eq)
    with Cons show ?thesis by simp
  qed
  then have dw: "dropWhile (\<lambda>b. b = cs ! 0) (replicate z (cs ! 0) @ ?m) = ?m"
    by (intro dropWhile_replicate_append) simp_all
  have int: "b58decode_int cs 58 ?m 0 = Inr (from_digits 58 ds)"
    using dist lt len by (simp add: b58decode_int_nth from_digits_def)
  show ?thesis
    by (simp add: b58decode_Bytes [OF len] dw int)
qed

lemma b58encode_digits:
  assumes len: "length cs = 58"
    and lt: "\<forall>d\<in>set ds. d < 256" and hd: "ds = [] \<or> hd ds \<noteq> 0"
  shows "b58encode (Bytes (replicate z 0 @ map of_nat ds)) (Bytes cs) =
         Inr (replicate z (cs ! 0) @ map (\<lambda>d. cs ! d) (digits 58 (from_digits 256 ds)))"
proof -
  let ?m = "map of_nat ds :: byte list"
  have "?m = [] \<or> hd ?m \<noteq> 0"
  proof (cases ds)
    case Nil
    then show ?thesis by simp
  next
    case (Cons d ds')
    with hd lt have "d \<noteq> 0" "d < 256" by simp_all
    then have "unat (of_nat d :: byte) \<noteq> 0" by (simp add: unat_of_nat_byte)
    then have "(of_nat d :: byte) \<noteq> 0" by auto
    with Cons show ?thesis by simp
  qed
  then have dw: "dropWhile (\<lambda>b. b = 0) (replicate z 0 @ ?m) = ?m"
    by (intro dropWhile_replicate_append) simp_all
  show ?thesis
    by (simp add: b58encode_Bytes [OF len] dw map_unat_of_nat [OF lt] del: map_map)
qed

lemma decode_encode_id:
  assumes len: "length cs = 58" and dist: "distinct cs"
  shows "\<exists>e. b58encode (Bytes x) (Bytes cs) = Inr e \<and> b58decode (Bytes e) (Bytes cs) = Inr x"
proof -
  let ?r = "dropWhile (\<lambda>b. b = 0) x"
  let ?z = "length x - length ?r"
  let ?n = "from_digits 256 (map unat ?r)"
  let ?ds = "digits 58 ?n"
  have lt: "\<forall>d\<in>set ?ds. d < 58" by (simp add: digits_less)
  have hd: "?ds = [] \<or> hd ?ds \<noteq> 0"
    by (cases "?n = 0") (simp_all add: digits_hd)
  have rlt: "\<forall>d\<in>set (map unat ?r). d < 256" by (auto simp: unat_byte_less)
  have rhd: "map unat ?r = [] \<or> hd (map unat ?r) \<noteq> 0"
  proof (cases "dropWhile (\<lambda>b. b = 0) x")
    case Nil
    then show ?thesis by simp
  next
    case (Cons b r')
    with hd_dropWhile_neq [of 0 x] have "b \<noteq> 0" by simp
    with Cons show ?thesis by (simp add: unat_eq_0)
  qed
  have bk: "digits 256 ?n = map unat ?r"
    using rlt rhd by (intro digits_from_digits) simp_all
  have "b58decode (Bytes (replicate ?z (cs ! 0) @ map (\<lambda>d. cs ! d) ?ds)) (Bytes cs) =
        Inr (replicate ?z 0 @ map of_nat (digits 256 (from_digits 58 ?ds)))"
    using len dist lt hd by (rule b58decode_digits)
  also have "from_digits 58 ?ds = ?n" by (simp add: from_digits_digits)
  also have "replicate ?z 0 @ map of_nat (digits 256 ?n) = x"
    by (simp only: bk map_of_nat_unat replicate_dropWhile)
  finally show ?thesis by (simp add: b58encode_Bytes [OF len])
qed

lemma encode_decode_id:
  assumes len: "length cs = 58" and dist: "distinct cs" and sym: "\<forall>b\<in>set s. b \<in> set cs"
  shows "\<exists>r. b58decode (Bytes s) (Bytes cs) = Inr r \<and> b58encode (Bytes r) (Bytes cs) = Inr s"
proof -
  let ?t = "dropWhile (\<lambda>b. b = cs ! 0) s"
  let ?z = "length s - length ?t"
  let ?ds = "map (\<lambda>c. the (index_bytes cs c)) ?t"
  have tsym: "\<forall>c\<in>set ?t. c \<in> set cs" using sym set_dropWhileD by fastforce
  have idx: "c \<in> set cs \<Longrightarrow> the (index_bytes cs c) < 58 \<and> cs ! the (index_bytes cs c) = c" for c
    using index_bytes_None [of cs c] index_bytes_Some [of cs c] len by (cases "index_bytes cs c") auto
  have t: "map (\<lambda>d. cs ! d) ?ds = ?t"
    using tsym idx by (simp add: map_idI)
  have lt: "\<forall>d\<in>set ?ds. d < 58" using tsym idx by auto
  have hd: "?ds = [] \<or> hd ?ds \<noteq> 0"
  proof (cases ?t)
    case Nil
    then show ?thesis by simp
  next
    case (Cons c t')
    then have "c \<in> set ?t" by simp
    with tsym have "c \<in> set cs" by blast
    with idx have "cs ! the (index_bytes cs c) = c" by blast
    moreover have "c \<noteq> cs ! 0" using hd_dropWhile_neq [of "cs ! 0" s] Cons by auto
    ultimately have "the (index_bytes cs c) \<noteq> 0" by (cases "the (index_bytes cs c)") auto
    with Cons show ?thesis by simp
  qed
  let ?m = "from_digits 58 ?ds"
  let ?bs = "digits 256 ?m"
  have s: "replicate ?z (cs ! 0) @ map (\<lambda>d. cs ! d) ?ds = s"
    by (simp only: t replicate_dropWhile)
  have "b58decode (Bytes (replicate ?z (cs ! 0) @ map (\<lambda>d. cs ! d) ?ds)) (Bytes cs) =
        Inr (replicate ?z 0 @ map of_nat ?bs)"
    using len dist lt hd by (rule b58decode_digits)
  then have dec: "b58decode (Bytes s) (Bytes cs) = Inr (replicate ?z 0 @ map of_nat ?bs)"
    by (simp only: s)
  have blt: "\<forall>d\<in>set ?bs. d < 256" by (simp add: digits_less)
  have bhd: "?bs = [] \<or> hd ?bs \<noteq> 0"
    by (cases "?m = 0") (simp_all add: digits_hd)
  have "b58encode (Bytes (replicate ?z 0 @ map of_nat ?bs)) (Bytes cs) =
        Inr (replicate ?z (cs ! 0) @ map (\<lambda>d. cs ! d) (digits 58 (from_digits 256 ?bs)))"
    using len blt bhd by (rule b58encode_digits)
  also have "from_digits 256 ?bs = ?m" by (simp add: from_digits_digits)
  also have "digits 58 ?m = ?ds" using lt hd by (intro digits_from_digits) simp_all
  finally have "b58encode (Bytes (replicate ?z 0 @ map of_nat ?bs)) (Bytes cs) = Inr s"
    by (simp only: s)
  with dec show ?thesis by blast
qed

section \<open>The default character set and the version byte\<close>

lemma DEFAULT_CHARSET_length: "length DEFAULT_CHARSET = 58"
  by (simp add: DEFAULT_CHARSET_def)

lemma DEFAULT_CHARSET_distinct: "distinct DEFAULT_CHARSET"
  by (simp add: DEFAULT_CHARSET_def)

lemma hex_value_hex_digit_all: "list_all (\<lambda>d. hex_value (hex_digit d) = Some d) [0..<16]"
  by code_simp

lemma hex_value_hex_digit: "d < 16 \<Longrightarrow> hex_value (hex_digit d) = Some d"
  using hex_value_hex_digit_all by (simp add: list_all_iff)

lemma hex_digits_byte:
  "n < 256 \<Longrightarrow>
   hex_digits n = (if n < 16 then [hex_digit n] else [hex_digit (n div 16), hex_digit (n mod 16)])"
proof (cases "n < 16")
  case True
  then show ?thesis by (simp add: hex_digits.simps)
next
  case False
  assume "n < 256"
  then have "n div 16 < 16" by simp
  then have "hex_digits (n div 16) = [hex_digit (n div 16)]" by (simp add: hex_digits.simps)
  with False show ?thesis by (subst hex_digits.simps) simp
qed

lemma hex_value_zero: "hex_value CHR ''0'' = Some 0"
  by (simp add: hex_value_def)

lemma version_bytes_byte:
  assumes "0 \<le> v" "v \<le> 255"
  shows "version_bytes v = Inr [word_of_int v]"
proof -
  let ?n = "nat v"
  from assms have n: "?n < 256" by simp
  have w: "(of_nat ?n :: byte) = word_of_int v" using assms by simp
  have hex: "removeprefix (py_hex v) ''0x'' = hex_digits ?n"
    using assms by (simp add: py_hex_def removeprefix_def)
  show ?thesis
  proof (cases "?n < 16")
    case True
    then show ?thesis
      unfolding version_bytes_def hex
      by (simp add: hex_digits_byte [OF n] hex_value_hex_digit hex_value_zero w)
  next
    case False
    from n have hi: "?n div 16 < 16" by simp
    have lo: "?n mod 16 < 16" by simp
    have "16 * (?n div 16) + ?n mod 16 = ?n" by simp
    with False show ?thesis
      unfolding version_bytes_def hex
      by (simp add: hex_digits_byte [OF n] hex_value_hex_digit [OF hi] hex_value_hex_digit [OF lo] w)
  qed
qed

lemma slice_1_minus4: "drop 1 (take (length raw - 4) raw) = rev (drop 4 (rev (tl raw)))"
proof (cases "5 \<le> length raw")
  case True
  then have "length raw - 4 = Suc (length raw - 5)" by simp
  then show ?thesis by (simp add: rev_drop drop_Suc take_tl)
next
  case False
  then have "drop 1 (take (length raw - 4) raw) = []" by simp
  moreover from False have "rev (drop 4 (rev (tl raw))) = []" by simp
  ultimately show ?thesis by simp
qed

section \<open>The codec: round trips, leading zeros, invalid symbols\<close>

text \<open>
  Claim C1. For every byte sequence \<open>x\<close> (the empty one and the all-zero ones included)
  and every alphabet of 58 distinct symbols, \<open>b58encode\<close> returns a value and
  \<open>b58decode\<close> of that value, under the same alphabet, is \<open>x\<close>.
\<close>

theorem b58decode_b58encode:
  assumes "length alphabet = 58" and "distinct alphabet"
  shows "\<exists>e. b58encode (Bytes x) (Bytes alphabet) = Inr e \<and>
             b58decode (Bytes e) (Bytes alphabet) = Inr x"
  using assms by (rule decode_encode_id)

theorem b58decode_b58encode_witness:
  "length DEFAULT_CHARSET = 58 \<and> distinct DEFAULT_CHARSET \<and>
   (\<exists>e. b58encode (Bytes [0, 0, 1, 2]) (Bytes DEFAULT_CHARSET) = Inr e \<and>
        b58decode (Bytes e) (Bytes DEFAULT_CHARSET) = Inr [0, 0, 1, 2])"
  using b58decode_b58encode [OF DEFAULT_CHARSET_length DEFAULT_CHARSET_distinct, of "[0, 0, 1, 2]"]
    DEFAULT_CHARSET_length DEFAULT_CHARSET_distinct
  by blast

text \<open>
  Claim C4. For every byte sequence \<open>x\<close> that does not start with the byte 0 and every
  alphabet of 58 distinct symbols, the encoding of two zero bytes followed by \<open>x\<close> starts
  with two copies of \<open>alphabet[0]\<close>, its symbol at position 2, if there is one, is not
  \<open>alphabet[0]\<close>, and decoding it gives the two zero bytes and \<open>x\<close> back.
\<close>

theorem leading_zeros_preserved:
  assumes len: "length alphabet = 58" and dist: "distinct alphabet"
    and nz: "x = [] \<or> hd x \<noteq> 0"
  shows "\<exists>e. b58encode (Bytes (0 # 0 # x)) (Bytes alphabet) = Inr e \<and>
           take 2 e = [alphabet ! 0, alphabet ! 0] \<and>
           (2 < length e \<longrightarrow> e ! 2 \<noteq> alphabet ! 0) \<and>
           b58decode (Bytes e) (Bytes alphabet) = Inr (0 # 0 # x)"
proof -
  let ?n = "from_digits 256 (map unat x)"
  let ?ds = "digits 58 ?n"
  let ?e = "alphabet ! 0 # alphabet ! 0 # map (\<lambda>d. alphabet ! d) ?ds"
  have dw: "dropWhile (\<lambda>b. b = 0) x = x"
    using nz by (cases x) simp_all
  have enc: "b58encode (Bytes (0 # 0 # x)) (Bytes alphabet) = Inr ?e"
    by (simp add: b58encode_Bytes [OF len] dw numeral_2_eq_2)
  have third: "2 < length ?e \<longrightarrow> ?e ! 2 \<noteq> alphabet ! 0"
  proof
    assume "2 < length ?e"
    then have ne: "?ds \<noteq> []" by auto
    then have "0 < ?n" by (cases "?n = 0") simp_all
    then have "hd ?ds \<noteq> 0" by (simp add: digits_hd)
    moreover have "hd ?ds < 58" using ne by (intro digits_less [of 58 _ ?n]) simp_all
    ultimately have "alphabet ! hd ?ds \<noteq> alphabet ! 0"
      using len dist by (simp add: nth_eq_iff_index_eq)
    with ne show "?e ! 2 \<noteq> alphabet ! 0" by (simp add: numeral_2_eq_2 hd_conv_nth)
  qed
  obtain e' where e': "b58encode (Bytes (0 # 0 # x)) (Bytes alphabet) = Inr e'"
    and d: "b58decode (Bytes e') (Bytes alphabet) = Inr (0 # 0 # x)"
    using decode_encode_id [OF len dist, of "0 # 0 # x"] by blast
  from e' enc have "e' = ?e" by simp
  with d have dec: "b58decode (Bytes ?e) (Bytes alphabet) = Inr (0 # 0 # x)" by simp
  have "take 2 ?e = [alphabet ! 0, alphabet ! 0]" by (simp add: numeral_2_eq_2)
  with enc third dec show ?thesis by blast
qed

theorem leading_zeros_preserved_witness:
  "length DEFAULT_CHARSET = 58 \<and> distinct DEFAULT_CHARSET \<and>
   ([1, 2 :: byte] = [] \<or> hd [1, 2 :: byte] \<noteq> 0) \<and>
   b58encode (Bytes [0, 0, 1, 2]) (Bytes DEFAULT_CHARSET) = Inr [49, 49, 53, 84] \<and>
   take 2 [49, 49, 53, 84 :: byte] = [DEFAULT_CHARSET ! 0, DEFAULT_CHARSET ! 0] \<and>
   2 < length [49, 49, 53, 84 :: byte] \<and> [49, 49, 53, 84] ! 2 \<noteq> DEFAULT_CHARSET ! 0 \<and>
   b58decode (Bytes [49, 49, 53, 84]) (Bytes DEFAULT_CHARSET) = Inr [0, 0, 1, 2]"
proof -
  have nz: "[1, 2 :: byte] = [] \<or> hd [1, 2 :: byte] \<noteq> 0" by simp
  have enc: "b58encode (Bytes [0, 0, 1, 2]) (Bytes DEFAULT_CHARSET) = Inr [49, 49, 53, 84]"
    by (simp add: b58encode_Bytes [OF DEFAULT_CHARSET_length] from_digits_def digits_step)
       (simp add: DEFAULT_CHARSET_def)
  from leading_zeros_preserved [OF DEFAULT_CHARSET_length DEFAULT_CHARSET_distinct nz]
  show ?thesis
    using DEFAULT_CHARSET_length DEFAULT_CHARSET_distinct by (simp add: enc)
qed

text \<open>
  Claim C6. Under an alphabet of length 58, an encoded input that still holds, after its
  leading occurrences of \<open>alphabet[0]\<close> are stripped, a byte that is not a symbol of the
  alphabet makes \<open>b58decode\<close> fail with the \<open>ValueError\<close> of \<open>bytes.index\<close> (the
  specification's \<open>InvalidSymbol\<close>).
\<close>

theorem b58decode_invalid_symbol:
  assumes len: "length alphabet = 58"
    and bad: "\<exists>b\<in>set (dropWhile (\<lambda>b. b = alphabet ! 0) encoded). b \<notin> set alphabet"
  shows "b58decode (Bytes encoded) (Bytes alphabet) = Inl (ValueError SubsectionNotFound)"
  by (simp add: b58decode_Bytes [OF len] b58decode_int_invalid [OF bad])

theorem b58decode_invalid_symbol_witness:
  "length DEFAULT_CHARSET = 58 \<and>
   (\<exists>b\<in>set (dropWhile (\<lambda>b. b = DEFAULT_CHARSET ! 0) [49, 66, 48]). b \<notin> set DEFAULT_CHARSET) \<and>
   b58decode (Bytes [49, 66, 48]) (Bytes DEFAULT_CHARSET) = Inl (ValueError SubsectionNotFound)"
proof -
  have bad: "\<exists>b\<in>set (dropWhile (\<lambda>b. b = DEFAULT_CHARSET ! 0) [49, 66, 48]).
               b \<notin> set DEFAULT_CHARSET"
    by (simp add: DEFAULT_CHARSET_def)
  from b58decode_invalid_symbol [OF DEFAULT_CHARSET_length bad] bad DEFAULT_CHARSET_length
  show ?thesis by blast
qed

text \<open>
  Claim C10. For every byte sequence \<open>s\<close> made of symbols of the default alphabet,
  \<open>b58decode\<close> returns a value and \<open>b58encode\<close> of that value is \<open>s\<close>: every string
  over the alphabet is the encoding of what it decodes to.
\<close>

theorem b58encode_b58decode_default:
  assumes "\<forall>b\<in>set s. b \<in> set DEFAULT_CHARSET"
  shows "\<exists>r. b58decode (Bytes s) (Bytes DEFAULT_CHARSET) = Inr r \<and>
             b58encode (Bytes r) (Bytes DEFAULT_CHARSET) = Inr s"
  using DEFAULT_CHARSET_length DEFAULT_CHARSET_distinct assms by (rule encode_decode_id)

theorem b58encode_b58decode_default_witness:
  "set [49, 49, 66, 111, 97, 116] \<subseteq> set DEFAULT_CHARSET \<and>
   b58decode (Bytes [49, 49, 66, 111, 97, 116]) (Bytes DEFAULT_CHARSET) = Inr [0, 0, 32, 41, 181] \<and>
   b58encode (Bytes [0, 0, 32, 41, 181]) (Bytes DEFAULT_CHARSET) = Inr [49, 49, 66, 111, 97, 116]"
proof -
  have sub: "set [49, 49, 66, 111, 97, 116] \<subseteq> set DEFAULT_CHARSET"
    by (simp add: DEFAULT_CHARSET_def)
  then have sym: "\<forall>b\<in>set [49, 49, 66, 111, 97, 116]. b \<in> set DEFAULT_CHARSET"
    by blast
  have dec: "b58decode (Bytes [49, 49, 66, 111, 97, 116]) (Bytes DEFAULT_CHARSET) =
             Inr [0, 0, 32, 41, 181]"
    by (simp add: b58decode_Bytes [OF DEFAULT_CHARSET_length] digits_step)
       (simp add: DEFAULT_CHARSET_def digits_step)
  from b58encode_b58decode_default [OF sym] sub
  show ?thesis by (simp add: dec)
qed

text \<open>
  Claim C9, as the specification states it: \<open>b58encode\<close> of the empty byte sequence
  is one \<open>alphabet[0]\<close> symbol and \<open>b58decode\<close> of the empty input is the single byte 0.
  Neither holds under the default alphabet.
\<close>

theorem empty_input_counterexample:
  "b58encode (Bytes []) (Bytes DEFAULT_CHARSET) \<noteq> Inr [DEFAULT_CHARSET ! 0] \<and>
   b58decode (Bytes []) (Bytes DEFAULT_CHARSET) \<noteq> Inr [0]"
  by (simp add: b58encode_Bytes [OF DEFAULT_CHARSET_length]
        b58decode_Bytes [OF DEFAULT_CHARSET_length])

text \<open>
  Claim C9, amended. Under an alphabet of length 58, \<open>b58encode\<close> of the empty byte
  sequence is the empty byte sequence and \<open>b58decode\<close> of the empty input is the empty
  byte sequence. The helper \<open>_b58encode_int\<close> does return one \<open>alphabet[0]\<close> symbol
  for 0 under its default argument, but \<open>b58encode\<close> calls it with \<open>default=False\<close>.
\<close>

theorem empty_input_empty_output:
  assumes len: "length alphabet = 58"
  shows "b58encode (Bytes []) (Bytes alphabet) = Inr [] \<and>
         b58decode (Bytes []) (Bytes alphabet) = Inr [] \<and>
         b58encode_int alphabet 58 0 (Some [alphabet ! 0]) = [alphabet ! 0] \<and>
         b58encode_int alphabet 58 0 None = []"
  by (simp add: b58encode_Bytes [OF len] b58decode_Bytes [OF len] b58encode_int_def
        b58encode_loop.simps)

theorem empty_input_empty_output_witness:
  "length DEFAULT_CHARSET = 58 \<and>
   b58encode (Bytes []) (Bytes DEFAULT_CHARSET) = Inr [] \<and>
   b58decode (Bytes []) (Bytes DEFAULT_CHARSET) = Inr [] \<and>
   b58encode_int DEFAULT_CHARSET 58 0 (Some [DEFAULT_CHARSET ! 0]) = [DEFAULT_CHARSET ! 0] \<and>
   b58encode_int DEFAULT_CHARSET 58 0 None = []"
  using empty_input_empty_output [OF DEFAULT_CHARSET_length] DEFAULT_CHARSET_length by simp

section \<open>Rejection of a character set of the wrong length\<close>

text \<open>
  A character set given as bytes whose length is not 58 is rejected with
  \<open>ValueError('charset base must be 58, not n')\<close> by the three decoding entry points,
  whatever the bytes to decode, and by the two encoding entry points when it is not
  empty (\<open>b58check_encode\<close> raises the \<open>ValueError\<close> of \<open>bytes.fromhex\<close> first when
  the version has no rendering).
\<close>

lemma charset_base_rejected:
  assumes "length alphabet \<noteq> 58"
  shows "b58decode (Bytes x) (Bytes alphabet) = Inl (ValueError (CharsetBase (length alphabet)))"
    and "b58check_address_is_valid sha256 (Bytes x) (Bytes alphabet) =
           Inl (ValueError (CharsetBase (length alphabet)))"
    and "b58check_decode sha256 (Bytes x) (Bytes alphabet) =
           Inl (ValueError (CharsetBase (length alphabet)))"
    and "alphabet \<noteq> [] \<Longrightarrow>
           b58encode (Bytes x) (Bytes alphabet) = Inl (ValueError (CharsetBase (length alphabet)))"
    and "alphabet \<noteq> [] \<Longrightarrow>
           \<exists>r. b58check_encode sha256 (Bytes x) version (Bytes alphabet) = Inl (ValueError r)"
proof -
  show d: "b58decode (Bytes x) (Bytes alphabet) = Inl (ValueError (CharsetBase (length alphabet)))"
    using assms by (simp add: b58decode_def)
  show v: "b58check_address_is_valid sha256 (Bytes x) (Bytes alphabet) =
        Inl (ValueError (CharsetBase (length alphabet)))"
    by (simp add: b58check_address_is_valid_def d)
  show "b58check_decode sha256 (Bytes x) (Bytes alphabet) =
        Inl (ValueError (CharsetBase (length alphabet)))"
    by (simp add: b58check_decode_def v)
  have e: "b58encode (Bytes y) (Bytes alphabet) = Inl (ValueError (CharsetBase (length alphabet)))"
    if "alphabet \<noteq> []" for y
    using assms that by (simp add: b58encode_def default_arg_Bytes)
  then show "alphabet \<noteq> [] \<Longrightarrow>
      b58encode (Bytes x) (Bytes alphabet) = Inl (ValueError (CharsetBase (length alphabet)))" .
  show "\<exists>r. b58check_encode sha256 (Bytes x) version (Bytes alphabet) = Inl (ValueError r)"
    if ne: "alphabet \<noteq> []"
  proof (cases "version_bytes version")
    case (Inl err)
    have "fromhex t = Inl err' \<Longrightarrow> err' = ValueError NonHexadecimal" for t err'
      by (induction t arbitrary: err' rule: fromhex.induct)
         (auto split: option.splits sum.splits)
    with Inl have "err = ValueError NonHexadecimal"
      by (simp add: version_bytes_def Let_def)
    with Inl show ?thesis by (simp add: b58check_encode_def)
  next
    case (Inr v_addr)
    then show ?thesis by (simp add: b58check_encode_def e [OF ne])
  qed
qed

text \<open>
  Claim C5 says that every character set whose length is not 58 makes each of the five
  entry points fail with the specification's \<open>ConfigError\<close>, the \<open>ValueError\<close> of the
  length check. The empty character set has length 0, and \<open>b58decode\<close> rejects it so;
  \<open>b58encode\<close> and \<open>b58check_encode\<close> raise \<open>IndexError\<close> instead, because the default
  argument \<open>bytes([charset[0]])\<close> of the nested helper is evaluated before the check.
\<close>

theorem empty_charset_IndexError:
  "length ([] :: byte list) \<noteq> 58 \<and>
   b58encode (Bytes []) (Bytes []) = Inl IndexError \<and>
   b58check_encode sha256 (Bytes []) 0 (Bytes []) = Inl IndexError \<and>
   b58decode (Bytes []) (Bytes []) = Inl (ValueError (CharsetBase 0))"
  by (simp add: b58encode_def default_arg_def b58check_encode_def version_bytes_byte
        b58decode_def)

section \<open>The Base58Check protocol: encoding, validation, decoding\<close>

text \<open>
  Claim C3. For every version from 0 to 255 and every content, the version is rendered
  as one byte whose value is the version, and \<open>b58check_encode\<close> is \<open>b58encode\<close> of
  that byte, then the content, then the first four bytes of the double hash of the byte
  followed by the content.
\<close>

theorem b58check_encode_layout:
  assumes "0 \<le> version" "version \<le> 255"
  shows "version_bytes version = Inr [word_of_int version] \<and>
         uint (word_of_int version :: byte) = version \<and>
         b58check_encode sha256 (Bytes content) version charset =
           b58encode (Bytes ([word_of_int version] @ content @
                        take 4 (sha256 (sha256 ([word_of_int version] @ content))))) charset"
proof -
  have v: "version_bytes version = Inr [word_of_int version]"
    using assms by (rule version_bytes_byte)
  have u: "uint (word_of_int version :: byte) = version"
    using assms by (simp add: uint_word_of_int)
  show ?thesis by (simp add: v u b58check_encode_def)
qed

theorem b58check_encode_layout_witness:
  "(0::int) \<le> 5 \<and> (5::int) \<le> 255 \<and> version_bytes 5 = Inr [5] \<and> uint (5 :: byte) = 5 \<and>
   b58check_encode (\<lambda>m. replicate 32 0) (Bytes [7]) 5 (Bytes DEFAULT_CHARSET) =
     b58encode (Bytes [5, 7, 0, 0, 0, 0]) (Bytes DEFAULT_CHARSET)"
proof -
  have r: "replicate 32 (0::byte) = 0 # 0 # 0 # 0 # replicate 28 0"
    by (simp add: eval_nat_numeral)
  from b58check_encode_layout [of 5 "\<lambda>m. replicate 32 0" "[7]" "Bytes DEFAULT_CHARSET"]
  show ?thesis by (simp add: r)
qed

text \<open>
  Claim C2. With a hash whose digests have 32 bytes and an alphabet of 58 distinct
  symbols, for every content and every version from 0 to 255, \<open>b58check_encode\<close>
  returns an address, \<open>b58check_address_is_valid\<close> accepts it and \<open>b58check_decode\<close>
  of it is the content.
\<close>

theorem b58check_encode_valid:
  assumes sha: "\<forall>m. length (sha256 m) = 32"
    and len: "length alphabet = 58" and dist: "distinct alphabet"
    and v: "0 \<le> version" "version \<le> 255"
  shows "\<exists>address. b58check_encode sha256 (Bytes content) version (Bytes alphabet) = Inr address \<and>
           b58check_address_is_valid sha256 (Bytes address) (Bytes alphabet) = Inr True \<and>
           b58check_decode sha256 (Bytes address) (Bytes alphabet) = Inr content"
proof -
  let ?w = "word_of_int version :: byte"
  let ?chk = "take 4 (sha256 (sha256 (?w # content)))"
  let ?raw = "?w # content @ ?chk"
  have chk: "length ?chk = 4" using sha by simp
  have enc: "b58check_encode sha256 (Bytes content) version (Bytes alphabet) =
             b58encode (Bytes ?raw) (Bytes alphabet)"
    using v by (simp add: b58check_encode_def version_bytes_byte)
  obtain address where a: "b58encode (Bytes ?raw) (Bytes alphabet) = Inr address"
    and d: "b58decode (Bytes address) (Bytes alphabet) = Inr ?raw"
    using decode_encode_id [OF len dist, of ?raw] by blast
  have body: "take (length ?raw - 4) ?raw = ?w # content" using chk by simp
  have tail: "drop (length ?raw - 4) ?raw = ?chk" using chk by simp
  have valid: "b58check_address_is_valid sha256 (Bytes address) (Bytes alphabet) = Inr True"
    unfolding b58check_address_is_valid_def d by (simp only: sum.case Let_def body tail) simp
  have "b58check_decode sha256 (Bytes address) (Bytes alphabet) = Inr content"
    unfolding b58check_decode_def valid d by (simp only: sum.case body) simp
  with enc a valid show ?thesis by simp
qed

theorem b58check_encode_valid_witness:
  "(\<forall>m. length ((\<lambda>m. replicate 32 (0::byte)) m) = 32) \<and>
   length DEFAULT_CHARSET = 58 \<and> distinct DEFAULT_CHARSET \<and> (0::int) \<le> 5 \<and> (5::int) \<le> 255 \<and>
   (\<exists>address.
      b58check_encode (\<lambda>m. replicate 32 0) (Bytes [7]) 5 (Bytes DEFAULT_CHARSET) = Inr address \<and>
      b58check_address_is_valid (\<lambda>m. replicate 32 0) (Bytes address) (Bytes DEFAULT_CHARSET) =
        Inr True \<and>
      b58check_decode (\<lambda>m. replicate 32 0) (Bytes address) (Bytes DEFAULT_CHARSET) = Inr [7])"
  using b58check_encode_valid [of "\<lambda>m. replicate 32 0" DEFAULT_CHARSET 5 "[7]"]
    DEFAULT_CHARSET_length DEFAULT_CHARSET_distinct
  by simp

text \<open>
  Claim C7. With a hash whose digests have 32 bytes, an address whose Base58 decoding
  succeeds with fewer than four bytes is not valid: \<open>b58check_address_is_valid\<close>
  returns \<open>False\<close> and raises nothing.
\<close>

theorem short_address_invalid:
  assumes sha: "\<forall>m. length (sha256 m) = 32"
    and dec: "b58decode address alphabet = Inr raw" and short: "length raw < 4"
  shows "b58check_address_is_valid sha256 address alphabet = Inr False"
proof -
  let ?expected = "drop (length raw - 4) raw"
  let ?actual = "take 4 (sha256 (sha256 (take (length raw - 4) raw)))"
  have "length ?actual = 4" using sha by simp
  moreover have "length ?expected < 4" using short by simp
  ultimately have "?expected \<noteq> ?actual" by auto
  then show ?thesis
    unfolding b58check_address_is_valid_def dec by (simp add: Let_def)
qed

theorem short_address_invalid_witness:
  "(\<forall>m. length ((\<lambda>m. replicate 32 (0::byte)) m) = 32) \<and>
   b58decode (Bytes [50]) (Bytes DEFAULT_CHARSET) = Inr [1] \<and> length [1 :: byte] < 4 \<and>
   b58check_address_is_valid (\<lambda>m. replicate 32 0) (Bytes [50]) (Bytes DEFAULT_CHARSET) = Inr False"
proof -
  have sha: "\<forall>m. length ((\<lambda>m. replicate 32 (0::byte)) m) = 32" by simp
  have dec: "b58decode (Bytes [50]) (Bytes DEFAULT_CHARSET) = Inr [1]"
    by (simp add: b58decode_Bytes [OF DEFAULT_CHARSET_length] digits_step)
       (simp add: DEFAULT_CHARSET_def digits_step)
  from short_address_invalid [OF sha dec] dec show ?thesis by simp
qed

text \<open>
  Claim C8. For every address whose Base58 decoding succeeds with \<open>raw\<close>, the validity
  check returns a truth value, \<open>b58check_decode\<close> fails with \<open>IncorrectAddress\<close>
  exactly when that value is \<open>False\<close>, and otherwise it returns \<open>raw\<close> without its
  first byte and without its last four bytes (the slice \<open>raw[1:-4]\<close>).
\<close>

theorem b58check_decode_iff_invalid:
  assumes dec: "b58decode address alphabet = Inr raw"
  shows "(\<exists>ok. b58check_address_is_valid sha256 address alphabet = Inr ok) \<and>
         (b58check_decode sha256 address alphabet = Inl IncorrectAddress \<longleftrightarrow>
            b58check_address_is_valid sha256 address alphabet = Inr False) \<and>
         (b58check_address_is_valid sha256 address alphabet = Inr True \<longrightarrow>
            b58check_decode sha256 address alphabet = Inr (drop 1 (take (length raw - 4) raw)) \<and>
            drop 1 (take (length raw - 4) raw) = rev (drop 4 (rev (tl raw))))"
proof -
  have "\<exists>ok. b58check_address_is_valid sha256 address alphabet = Inr ok"
    unfolding b58check_address_is_valid_def dec by (auto simp: Let_def)
  then obtain ok where ok: "b58check_address_is_valid sha256 address alphabet = Inr ok" ..
  have s: "drop 1 (take (length raw - 4) raw) = rev (drop 4 (rev (tl raw)))"
    by (rule slice_1_minus4)
  show ?thesis
    unfolding b58check_decode_def ok dec
    by (cases ok) (auto simp: s [simplified])
qed

theorem b58check_decode_iff_invalid_witness:
  "b58decode (Bytes [51, 87, 67, 103, 55, 71, 101, 51]) (Bytes DEFAULT_CHARSET) =
     Inr [5, 7, 0, 0, 0, 0] \<and>
   b58check_address_is_valid (\<lambda>m. replicate 32 0) (Bytes [51, 87, 67, 103, 55, 71, 101, 51])
     (Bytes DEFAULT_CHARSET) = Inr True \<and>
   b58check_decode (\<lambda>m. replicate 32 0) (Bytes [51, 87, 67, 103, 55, 71, 101, 51])
     (Bytes DEFAULT_CHARSET) = Inr [7] \<and>
   b58decode (Bytes [51, 87, 67, 103, 55, 71, 101, 52]) (Bytes DEFAULT_CHARSET) =
     Inr [5, 7, 0, 0, 0, 1] \<and>
   b58check_address_is_valid (\<lambda>m. replicate 32 0) (Bytes [51, 87, 67, 103, 55, 71, 101, 52])
     (Bytes DEFAULT_CHARSET) = Inr False \<and>
   b58check_decode (\<lambda>m. replicate 32 0) (Bytes [51, 87, 67, 103, 55, 71, 101, 52])
     (Bytes DEFAULT_CHARSET) = Inl IncorrectAddress"
proof -
  have r: "replicate 32 (0::byte) = 0 # 0 # 0 # 0 # replicate 28 0"
    by (simp add: eval_nat_numeral)
  have d1: "b58decode (Bytes [51, 87, 67, 103, 55, 71, 101, 51]) (Bytes DEFAULT_CHARSET) =
            Inr [5, 7, 0, 0, 0, 0]"
    by (simp add: b58decode_Bytes [OF DEFAULT_CHARSET_length] digits_step)
       (simp add: DEFAULT_CHARSET_def digits_step)
  have d2: "b58decode (Bytes [51, 87, 67, 103, 55, 71, 101, 52]) (Bytes DEFAULT_CHARSET) =
            Inr [5, 7, 0, 0, 0, 1]"
    by (simp add: b58decode_Bytes [OF DEFAULT_CHARSET_length] digits_step)
       (simp add: DEFAULT_CHARSET_def digits_step)
  have v1: "b58check_address_is_valid (\<lambda>m. replicate 32 0)
              (Bytes [51, 87, 67, 103, 55, 71, 101, 51]) (Bytes DEFAULT_CHARSET) = Inr True"
    unfolding b58check_address_is_valid_def d1 by (simp add: r)
  have v2: "b58check_address_is_valid (\<lambda>m. replicate 32 0)
              (Bytes [51, 87, 67, 103, 55, 71, 101, 52]) (Bytes DEFAULT_CHARSET) = Inr False"
    unfolding b58check_address_is_valid_def d2 by (simp add: r)
  from b58check_decode_iff_invalid [OF d1, of "\<lambda>m. replicate 32 0"]
    b58check_decode_iff_invalid [OF d2, of "\<lambda>m. replicate 32 0"]
  show ?thesis
    by (simp add: d1 d2 v1 v2)
qed

end
